theory Spec2Isabelle
  imports Main
begin

section \<open>Data model of \<open>src/Allocator.h\<close>\<close>

text \<open>
  The two template parameters of \<open>MemoryPool<T, growSize>\<close> and the size of a free-list
  link. \<open>sizeof(T)\<close> and \<open>sizeof(Chunk)\<close> depend on the element type and on the platform,
  so they are parameters of the model.
\<close>

record config =
  growSize :: nat
  sizeofT :: nat
  sizeofChunk :: nat

text \<open>
  The address of a byte of slab storage: \<open>Addr b off\<close> is \<open>&data[off]\<close> of the
  \<open>Block\<close> object \<open>b\<close>. Block objects are named by natural numbers; a null pointer is
  \<open>None\<close>. The pointer arguments of \<open>deallocate\<close>, \<open>construct\<close> and \<open>destroy\<close>
  are slot addresses, hence non-null.
\<close>

datatype addr = Addr (block_of: nat) (offset_of: nat)

text \<open>
  What the bytes of a slot hold: a \<open>Chunk\<close> (its \<open>next\<close> pointer) while the slot is on
  the free list, an element of type \<open>T\<close> once the caller has constructed one there.
  Both live in the same storage (lines 13-22), so a slot holds one or the other.
\<close>

datatype 'a cell = Link "addr option" | Elem 'a

text \<open>
  \<open>BadAlloc\<close> is the exception \<open>std::bad_alloc\<close> thrown at line 120. The others are
  the undefined behaviours the code does not guard against: calling \<open>getChunk\<close> through
  a null \<open>firstBlock\<close> (line 79), reading \<open>firstFreeChunk->next\<close> from storage that
  holds no link (line 63), reading \<open>firstBlock->next\<close> of a block that is not live
  (line 51), and reading \<open>firstBlock->next\<close> after a write through a slot pointer has
  gone outside the \<open>data\<close> array (line 51 again).
\<close>

datatype error = BadAlloc | NullBlock | NotALink | DanglingBlock | Clobbered

text \<open>
  The three members of \<open>MemoryPool\<close> (lines 38-40) together with the part of the
  environment they refer to: the live \<open>Block\<close> objects with their \<open>next\<close> member, the
  number of blocks obtained from \<open>new\<close> so far (the next block gets that number), the
  contents of slot storage, two traces (the blocks passed to \<open>delete\<close> and the slots
  whose element destructor has run) and the flag \<open>clobbered\<close>. \<open>usedChunks\<close> is a
  \<open>std::size_t\<close>; its only arithmetic is the increment at line 79, executed when it is
  below \<open>growSize\<close> or has just been set to 0, so it never wraps and a natural number
  models it exactly.
  \<open>operator new\<close> is taken to succeed. Storage is a map from addresses to cells:
  two different addresses are two cells, so the model does not follow a write through
  a pointer into the middle of a slot, which \<open>allocate\<close> never returns.

  The \<open>next\<close> member of a \<open>Block\<close> lies in the same object as its \<open>data\<close> array. A
  write through a slot pointer that does not stay inside \<open>data\<close> is undefined
  behaviour; on the usual layout it lands on \<open>next\<close> or beyond the block. The model
  does not guess what such a write destroys: it sets \<open>clobbered\<close>, and from then on
  \<open>blocks\<close> no longer tells what the \<open>next\<close> members hold.
\<close>

record 'a pool =
  firstFreeChunk :: "addr option"
  firstBlock :: "nat option"
  usedChunks :: nat
  blocks :: "nat \<rightharpoonup> nat option"
  nextBlock :: nat
  mem :: "addr \<rightharpoonup> 'a cell"
  deleted :: "nat list"
  destroyed :: "addr list"
  clobbered :: bool

section \<open>Block\<close>

text \<open>Line 25: \<open>chunkSize = sizeof(T) > sizeof(Chunk) ? sizeof(T) : sizeof(Chunk)\<close>.\<close>

definition chunkSize :: "config \<Rightarrow> nat" where
  "chunkSize c = (if sizeofT c > sizeofChunk c then sizeofT c else sizeofChunk c)"

text \<open>
  \<open>std::size_t\<close> is taken to be 64 bits wide: its arithmetic is modulo \<open>2 ^ 64\<close>.
\<close>

definition size_range :: nat where
  "size_range = 2 ^ 64"

text \<open>
  Lines 33-35: \<open>getChunk(idx)\<close> is \<open>&data[chunkSize * idx]\<close>, the product computed in
  \<open>std::size_t\<close>.
\<close>

definition getChunk :: "config \<Rightarrow> nat \<Rightarrow> nat \<Rightarrow> addr" where
  "getChunk c b idx = Addr b ((chunkSize c * idx) mod size_range)"

text \<open>
  Line 26: \<open>uint8_t data[chunkSize * growSize]\<close>. The bound is a \<open>std::size_t\<close> product
  as well, so the array has \<open>array_bound\<close> bytes, which is fewer than \<open>growSize\<close> slots
  when the product wraps.
\<close>

definition array_bound :: "config \<Rightarrow> nat" where
  "array_bound c = (chunkSize c * growSize c) mod size_range"

definition no_wrap :: "config \<Rightarrow> bool" where
  "no_wrap c \<longleftrightarrow> chunkSize c * growSize c < size_range"

text \<open>
  \<open>in_data c s p n\<close>: the \<open>n\<close> bytes at \<open>p\<close> lie inside the \<open>data\<close> array of a live
  block.
\<close>

definition in_data :: "config \<Rightarrow> 'a pool \<Rightarrow> addr \<Rightarrow> nat \<Rightarrow> bool" where
  "in_data c s p n \<longleftrightarrow> blocks s (block_of p) \<noteq> None \<and> offset_of p + n \<le> array_bound c"

text \<open>
  Line 75, \<open>new Block(pnext)\<close>: a block distinct from every block created before, whose
  \<open>next\<close> member is \<open>pnext\<close> (line 30).
\<close>

definition new_Block :: "nat option \<Rightarrow> 'a pool \<Rightarrow> nat \<times> 'a pool" where
  "new_Block pnext s =
     (nextBlock s,
      s\<lparr>blocks := (blocks s)(nextBlock s \<mapsto> pnext), nextBlock := Suc (nextBlock s)\<rparr>)"

text \<open>
  C++ requires the bound of an array member to be greater than zero, so every
  instantiation of the template satisfies this.
\<close>

definition valid_config :: "config \<Rightarrow> bool" where
  "valid_config c \<longleftrightarrow> 0 < array_bound c"

section \<open>MemoryPool\<close>

text \<open>Lines 38-43: the default member initialisers, in an environment with no block yet.\<close>

definition MemoryPool :: "config \<Rightarrow> 'a pool" where
  "MemoryPool c =
     \<lparr>firstFreeChunk = None, firstBlock = None, usedChunks = growSize c,
      blocks = Map.empty, nextBlock = 0, mem = Map.empty, deleted = [], destroyed = [],
      clobbered = False\<rparr>"

text \<open>
  Lines 57-80. The result is the returned pointer or the error, paired with the state
  after the call.
\<close>

definition allocate :: "config \<Rightarrow> 'a pool \<Rightarrow> (error + addr) \<times> 'a pool" where
  "allocate c s =
     (case firstFreeChunk s of
        Some p \<Rightarrow>
          (case mem s p of
             Some (Link nxt) \<Rightarrow> (Inr p, s\<lparr>firstFreeChunk := nxt\<rparr>)
           | _ \<Rightarrow> (Inl NotALink, s))
      | None \<Rightarrow>
          (let s1 = (if usedChunks s \<ge> growSize c
                     then (case new_Block (firstBlock s) s of
                             (b, s') \<Rightarrow> s'\<lparr>firstBlock := Some b, usedChunks := 0\<rparr>)
                     else s)
           in case firstBlock s1 of
                None \<Rightarrow> (Inl NullBlock, s1)
              | Some b \<Rightarrow>
                  (Inr (getChunk c b (usedChunks s1)),
                   s1\<lparr>usedChunks := Suc (usedChunks s1)\<rparr>)))"

text \<open>
  Lines 82-90. Line 88 writes a \<open>Chunk\<close> through \<open>p\<close>: \<open>sizeof(Chunk)\<close> bytes.
\<close>

definition deallocate :: "config \<Rightarrow> addr \<Rightarrow> 'a pool \<Rightarrow> 'a pool" where
  "deallocate c p s =
     s\<lparr>mem := (mem s)(p \<mapsto> Link (firstFreeChunk s)), firstFreeChunk := Some p,
       clobbered := (clobbered s \<or> \<not> in_data c s p (sizeofChunk c))\<rparr>"

text \<open>
  Lines 49-55, the destructor. Each iteration reads \<open>firstBlock->next\<close>, deletes the
  block and moves on. The loop is not structurally recursive, so the model is a partial
  function: \<open>None\<close> is a walk that never ends. Once a write has gone outside a \<open>data\<close>
  array, what \<open>firstBlock->next\<close> yields is not known.
\<close>

partial_function (option) MemoryPool_dtor :: "'a pool \<Rightarrow> (error + 'a pool) option" where
  "MemoryPool_dtor s =
     (case firstBlock s of
        None \<Rightarrow> Some (Inr s)
      | Some b \<Rightarrow>
          (if clobbered s then Some (Inl Clobbered)
           else case blocks s b of
             None \<Rightarrow> Some (Inl DanglingBlock)
           | Some tmp \<Rightarrow>
               MemoryPool_dtor
                 (s\<lparr>blocks := (blocks s)(b := None), deleted := deleted s @ [b],
                    firstBlock := tmp\<rparr>)))"

section \<open>Allocator\<close>

text \<open>Lines 119-122. \<open>hint\<close> is a \<open>const void*\<close>: only whether it is null matters.\<close>

definition Allocator_allocate ::
  "config \<Rightarrow> nat \<Rightarrow> 'h option \<Rightarrow> 'a pool \<Rightarrow> (error + addr) \<times> 'a pool" where
  "Allocator_allocate c n hint s =
     (if n \<noteq> 1 \<or> hint \<noteq> None then (Inl BadAlloc, s) else allocate c s)"

text \<open>Lines 124-126.\<close>

definition Allocator_deallocate :: "config \<Rightarrow> addr \<Rightarrow> nat \<Rightarrow> 'a pool \<Rightarrow> 'a pool" where
  "Allocator_deallocate c p n s = deallocate c p s"

text \<open>
  Lines 128-132: placement new of a copy of \<open>val\<close> into the storage at \<open>p\<close>, which
  writes \<open>sizeof(T)\<close> bytes.
\<close>

definition construct :: "config \<Rightarrow> addr \<Rightarrow> 'a \<Rightarrow> 'a pool \<Rightarrow> 'a pool" where
  "construct c p val s =
     s\<lparr>mem := (mem s)(p \<mapsto> Elem val),
       clobbered := (clobbered s \<or> \<not> in_data c s p (sizeofT c))\<rparr>"

text \<open>
  Lines 134-136: \<open>p->~T()\<close>. What the destructor of \<open>T\<close> does is the element type's
  business; the model records that it ran, and on which slot.
\<close>

definition destroy :: "addr \<Rightarrow> 'a pool \<Rightarrow> 'a pool" where
  "destroy p s = s\<lparr>destroyed := destroyed s @ [p]\<rparr>"

section \<open>Sequences of calls\<close>

text \<open>
  A sequence of Pool Engine calls, run from a given state. The run stops at the first
  call that fails.
\<close>

datatype op = Alloc | Dealloc addr

fun run :: "config \<Rightarrow> op list \<Rightarrow> 'a pool \<Rightarrow> error + 'a pool" where
  "run c [] s = Inr s"
| "run c (Alloc # ops) s =
     (case allocate c s of
        (Inl e, s') \<Rightarrow> Inl e
      | (Inr p, s') \<Rightarrow> run c ops s')"
| "run c (Dealloc p # ops) s = run c ops (deallocate c p s)"

text \<open>
  The same run, keeping the list of live addresses: those returned by \<open>allocate\<close> and
  not yet passed to \<open>deallocate\<close>. Deallocating an address that is not live (a double
  free, or a slot the pool never handed out) is the misuse the pool does not detect; the
  tracked run stops there with \<open>Misuse\<close>.
\<close>

datatype stop = Fault error | Misuse addr

fun track :: "config \<Rightarrow> op list \<Rightarrow> 'a pool \<Rightarrow> addr list \<Rightarrow> stop + ('a pool \<times> addr list)" where
  "track c [] s live = Inr (s, live)"
| "track c (Alloc # ops) s live =
     (case allocate c s of
        (Inl e, s') \<Rightarrow> Inl (Fault e)
      | (Inr p, s') \<Rightarrow> track c ops s' (p # live))"
| "track c (Dealloc p # ops) s live =
     (if p \<in> set live then track c ops (deallocate c p s) (remove1 p live)
      else Inl (Misuse p))"

text \<open>
  A sequence of calls of the Allocator's four operations. A caller may catch
  \<open>std::bad_alloc\<close> and go on, so the run continues after it; it stops at undefined
  behaviour.
\<close>

datatype 'a call =
    Allocate nat "addr option"
  | Deallocate addr nat
  | Construct addr 'a
  | Destroy addr

fun exec :: "config \<Rightarrow> 'a call list \<Rightarrow> 'a pool \<Rightarrow> error + 'a pool" where
  "exec c [] s = Inr s"
| "exec c (Allocate n hint # cs) s =
     (case Allocator_allocate c n hint s of
        (Inl e, s') \<Rightarrow> (if e = BadAlloc then exec c cs s' else Inl e)
      | (Inr p, s') \<Rightarrow> exec c cs s')"
| "exec c (Deallocate p n # cs) s = exec c cs (Allocator_deallocate c p n s)"
| "exec c (Construct p v # cs) s = exec c cs (construct c p v s)"
| "exec c (Destroy p # cs) s = exec c cs (destroy p s)"

text \<open>The slots passed to \<open>destroy\<close> in a sequence of calls, in order.\<close>

fun destroy_calls :: "'a call list \<Rightarrow> addr list" where
  "destroy_calls [] = []"
| "destroy_calls (Destroy p # cs) = p # destroy_calls cs"
| "destroy_calls (_ # cs) = destroy_calls cs"

section \<open>Invariants\<close>

text \<open>Without a block the cursor is at \<open>growSize\<close> or beyond, so line 71 creates one.\<close>

definition front_inv :: "config \<Rightarrow> 'a pool \<Rightarrow> bool" where
  "front_inv c s \<longleftrightarrow> (firstBlock s = None \<longrightarrow> growSize c \<le> usedChunks s)"

definition cursor_inv :: "config \<Rightarrow> 'a pool \<Rightarrow> bool" where
  "cursor_inv c s \<longleftrightarrow>
     usedChunks s \<le> growSize c \<and> (firstBlock s = None \<longrightarrow> usedChunks s = growSize c)"

text \<open>
  The blocks are \<open>0, \<dots>, nextBlock - 1\<close>, each linked to the one created before it, and
  \<open>firstBlock\<close> is the newest.
\<close>

definition chain_inv :: "'a pool \<Rightarrow> bool" where
  "chain_inv s \<longleftrightarrow>
     firstBlock s = (if nextBlock s = 0 then None else Some (nextBlock s - 1)) \<and>
     (\<forall>i. blocks s i =
        (if i < nextBlock s then Some (if i = 0 then None else Some (i - 1)) else None)) \<and>
     deleted s = []"

text \<open>Every slot reachable from the free-list head holds a link.\<close>

definition links_inv :: "'a pool \<Rightarrow> bool" where
  "links_inv s \<longleftrightarrow>
     (\<forall>p. firstFreeChunk s = Some p \<longrightarrow> (\<exists>n. mem s p = Some (Link n))) \<and>
     (\<forall>p q. mem s p = Some (Link (Some q)) \<longrightarrow> (\<exists>n. mem s q = Some (Link n)))"

text \<open>\<open>fl_path m h fl\<close>: following the links in \<open>m\<close> from \<open>h\<close> visits exactly \<open>fl\<close>.\<close>

primrec fl_path :: "(addr \<rightharpoonup> 'a cell) \<Rightarrow> addr option \<Rightarrow> addr list \<Rightarrow> bool" where
  "fl_path m h [] \<longleftrightarrow> h = None"
| "fl_path m h (p # ps) \<longleftrightarrow>
     h = Some p \<and> (case m p of Some (Link n) \<Rightarrow> fl_path m n ps | _ \<Rightarrow> False)"

text \<open>The slots handed out by bump allocation so far.\<close>

definition carved :: "config \<Rightarrow> 'a pool \<Rightarrow> addr \<Rightarrow> bool" where
  "carved c s a \<longleftrightarrow>
     (\<exists>b i. a = getChunk c b i \<and> b < nextBlock s \<and>
        (if Suc b = nextBlock s then i < usedChunks s else i < growSize c))"

definition live_inv :: "config \<Rightarrow> 'a pool \<Rightarrow> addr list \<Rightarrow> bool" where
  "live_inv c s live \<longleftrightarrow>
     (\<exists>fl. fl_path (mem s) (firstFreeChunk s) fl \<and> distinct (fl @ live) \<and>
        (\<forall>a \<in> set (fl @ live). carved c s a)) \<and>
     cursor_inv c s \<and>
     firstBlock s = (if nextBlock s = 0 then None else Some (nextBlock s - 1)) \<and>
     (\<forall>b<nextBlock s. blocks s b \<noteq> None) \<and> \<not> clobbered s"

section \<open>The slot size\<close>

text \<open>
  C6. The slot size \<open>chunkSize\<close> is the larger of \<open>sizeof(T)\<close> and \<open>sizeof(Chunk)\<close>: it is
  \<open>sizeof(T)\<close> when the element is at least as large as a link and the link size
  otherwise. It is one constant of the instantiation: in every block \<open>b\<close> slot \<open>i\<close> lies
  at offset \<open>chunkSize * i\<close>, computed in \<open>std::size_t\<close>, so consecutive slots lie
  exactly that many bytes apart as long as the product does not wrap.
\<close>

theorem chunkSize_max:
  "chunkSize c = max (sizeofT c) (sizeofChunk c) \<and>
   (sizeofChunk c \<le> sizeofT c \<longrightarrow> chunkSize c = sizeofT c) \<and>
   (sizeofT c < sizeofChunk c \<longrightarrow> chunkSize c = sizeofChunk c) \<and>
   (\<forall>b i. block_of (getChunk c b i) = b \<and>
      offset_of (getChunk c b i) = (max (sizeofT c) (sizeofChunk c) * i) mod 2 ^ 64 \<and>
      (max (sizeofT c) (sizeofChunk c) * Suc i < 2 ^ 64 \<longrightarrow>
         offset_of (getChunk c b (Suc i)) - offset_of (getChunk c b i) =
           max (sizeofT c) (sizeofChunk c)))"
proof -
  have "offset_of (getChunk c b (Suc i)) - offset_of (getChunk c b i) =
      max (sizeofT c) (sizeofChunk c)"
    if "max (sizeofT c) (sizeofChunk c) * Suc i < 2 ^ 64" for b i
  proof -
    let ?m = "max (sizeofT c) (sizeofChunk c)"
    have cs: "chunkSize c = ?m" by (simp add: chunkSize_def max_def)
    have "?m * i \<le> ?m * Suc i" by simp
    from this that have lt: "?m * i < 2 ^ 64" by (rule le_less_trans)
    have "offset_of (getChunk c b (Suc i)) = ?m * Suc i"
      unfolding getChunk_def cs size_range_def using that by simp
    moreover have "offset_of (getChunk c b i) = ?m * i"
      unfolding getChunk_def cs size_range_def using lt by simp
    ultimately show ?thesis by simp
  qed
  then show ?thesis
    by (simp add: chunkSize_def getChunk_def size_range_def max_def)
qed

theorem chunkSize_max_witness:
  "chunkSize \<lparr>growSize = 4, sizeofT = 24, sizeofChunk = 8\<rparr> = 24 \<and>
   chunkSize \<lparr>growSize = 4, sizeofT = 1, sizeofChunk = 8\<rparr> = 8 \<and>
   offset_of (getChunk \<lparr>growSize = 4, sizeofT = 1, sizeofChunk = 8\<rparr> 3 2) = 16 \<and>
   offset_of (getChunk \<lparr>growSize = 4, sizeofT = 1, sizeofChunk = 8\<rparr> 3 (Suc 2)) -
     offset_of (getChunk \<lparr>growSize = 4, sizeofT = 1, sizeofChunk = 8\<rparr> 3 2) = 8"
  using chunkSize_max [of "\<lparr>growSize = 4, sizeofT = 24, sizeofChunk = 8\<rparr>"]
    chunkSize_max [of "\<lparr>growSize = 4, sizeofT = 1, sizeofChunk = 8\<rparr>"]
  by simp

section \<open>Single calls\<close>




text \<open>
  C4. \<open>allocate()\<close> right after \<open>deallocate(p)\<close> returns exactly \<open>p\<close> and leaves the free
  list as it was before the \<open>deallocate\<close>; no block is created and the cursor does not
  move. This holds whatever the free list held before, in particular when it was empty,
  so that \<open>p\<close> was its only entry.
\<close>

theorem allocate_after_deallocate:
  "allocate c (deallocate c p s) =
     (Inr p, s\<lparr>mem := (mem s)(p \<mapsto> Link (firstFreeChunk s)),
              clobbered := (clobbered s \<or> \<not> in_data c s p (sizeofChunk c))\<rparr>)"
  by (simp add: allocate_def deallocate_def)

text \<open>
  C3. \<open>Allocator::allocate(n, hint)\<close> with \<open>n \<noteq> 1\<close> or a non-null \<open>hint\<close> throws
  \<open>std::bad_alloc\<close> and the state after the call is the state before it; with \<open>n = 1\<close>
  and a null \<open>hint\<close> it is \<open>MemoryPool::allocate()\<close>.
\<close>

theorem Allocator_allocate_contract:
  "(n \<noteq> 1 \<or> hint \<noteq> None \<longrightarrow> Allocator_allocate c n hint s = (Inl BadAlloc, s)) \<and>
   (n = 1 \<and> hint = None \<longrightarrow> Allocator_allocate c n hint s = allocate c s)"
  by (simp add: Allocator_allocate_def)

theorem Allocator_allocate_contract_witness:
  "fst (Allocator_allocate \<lparr>growSize = 2, sizeofT = 4, sizeofChunk = 8\<rparr> 2 (None :: addr option)
          (MemoryPool \<lparr>growSize = 2, sizeofT = 4, sizeofChunk = 8\<rparr> :: nat pool)) = Inl BadAlloc \<and>
   fst (Allocator_allocate \<lparr>growSize = 2, sizeofT = 4, sizeofChunk = 8\<rparr> 1 (Some (Addr 0 0))
          (MemoryPool \<lparr>growSize = 2, sizeofT = 4, sizeofChunk = 8\<rparr> :: nat pool)) = Inl BadAlloc \<and>
   fst (Allocator_allocate \<lparr>growSize = 2, sizeofT = 4, sizeofChunk = 8\<rparr> 1 (None :: addr option)
          (MemoryPool \<lparr>growSize = 2, sizeofT = 4, sizeofChunk = 8\<rparr> :: nat pool)) = Inr (Addr 0 0)"
  using
    Allocator_allocate_contract [of 2 "None :: addr option"
      "\<lparr>growSize = 2, sizeofT = 4, sizeofChunk = 8\<rparr>"
      "MemoryPool \<lparr>growSize = 2, sizeofT = 4, sizeofChunk = 8\<rparr> :: nat pool"]
    Allocator_allocate_contract [of 1 "Some (Addr 0 0)"
      "\<lparr>growSize = 2, sizeofT = 4, sizeofChunk = 8\<rparr>"
      "MemoryPool \<lparr>growSize = 2, sizeofT = 4, sizeofChunk = 8\<rparr> :: nat pool"]
    Allocator_allocate_contract [of 1 "None :: addr option"
      "\<lparr>growSize = 2, sizeofT = 4, sizeofChunk = 8\<rparr>"
      "MemoryPool \<lparr>growSize = 2, sizeofT = 4, sizeofChunk = 8\<rparr> :: nat pool"]
  by (simp add: allocate_def MemoryPool_def new_Block_def getChunk_def)




section \<open>The three paths of \<open>allocate\<close>\<close>

lemma allocate_free:
  "firstFreeChunk s = Some p \<Longrightarrow> mem s p = Some (Link n) \<Longrightarrow>
   allocate c s = (Inr p, s\<lparr>firstFreeChunk := n\<rparr>)"
  by (simp add: allocate_def)

lemma allocate_grow:
  "firstFreeChunk s = None \<Longrightarrow> growSize c \<le> usedChunks s \<Longrightarrow>
   allocate c s =
     (Inr (getChunk c (nextBlock s) 0),
      s\<lparr>blocks := (blocks s)(nextBlock s \<mapsto> firstBlock s), nextBlock := Suc (nextBlock s),
        firstBlock := Some (nextBlock s), usedChunks := Suc 0\<rparr>)"
  by (simp add: allocate_def new_Block_def)

lemma allocate_bump:
  "firstFreeChunk s = None \<Longrightarrow> usedChunks s < growSize c \<Longrightarrow> firstBlock s = Some b \<Longrightarrow>
   allocate c s = (Inr (getChunk c b (usedChunks s)), s\<lparr>usedChunks := Suc (usedChunks s)\<rparr>)"
  by (simp add: allocate_def)

lemma allocate_cases:
  assumes "allocate c s = (Inr p, s')"
  obtains
    (free) n where "firstFreeChunk s = Some p" "mem s p = Some (Link n)"
      "s' = s\<lparr>firstFreeChunk := n\<rparr>"
  | (grow) "firstFreeChunk s = None" "growSize c \<le> usedChunks s"
      "p = getChunk c (nextBlock s) 0"
      "s' = s\<lparr>blocks := (blocks s)(nextBlock s \<mapsto> firstBlock s), nextBlock := Suc (nextBlock s),
        firstBlock := Some (nextBlock s), usedChunks := Suc 0\<rparr>"
  | (bump) b where "firstFreeChunk s = None" "usedChunks s < growSize c" "firstBlock s = Some b"
      "p = getChunk c b (usedChunks s)" "s' = s\<lparr>usedChunks := Suc (usedChunks s)\<rparr>"
proof (cases "firstFreeChunk s")
  case (Some q)
  with assms obtain n where "mem s q = Some (Link n)"
    by (auto simp: allocate_def split: option.splits cell.splits)
  with Some assms free show ?thesis by (simp add: allocate_free)
next
  case None
  show ?thesis
  proof (cases "growSize c \<le> usedChunks s")
    case True
    with None assms grow show ?thesis by (simp add: allocate_grow)
  next
    case False
    with None assms obtain b where "firstBlock s = Some b"
      by (auto simp: allocate_def split: option.splits)
    with None False assms bump show ?thesis by (simp add: allocate_bump)
  qed
qed

lemma front_inv_allocate:
  "allocate c s = (Inr p, s') \<Longrightarrow> front_inv c s \<Longrightarrow> front_inv c s'"
  by (erule allocate_cases) (auto simp: front_inv_def)

lemma cursor_inv_allocate:
  "0 < growSize c \<Longrightarrow> allocate c s = (Inr p, s') \<Longrightarrow> cursor_inv c s \<Longrightarrow> cursor_inv c s'"
  by (erule allocate_cases) (auto simp: cursor_inv_def)

lemma links_inv_allocate:
  "allocate c s = (Inr p, s') \<Longrightarrow> links_inv s \<Longrightarrow> links_inv s'"
  by (erule allocate_cases) (auto simp: links_inv_def)

lemma chain_inv_allocate:
  "allocate c s = (Inr p, s') \<Longrightarrow> chain_inv s \<Longrightarrow> chain_inv s'"
  by (erule allocate_cases) (auto simp: chain_inv_def)

lemma front_inv_deallocate: "front_inv c s \<Longrightarrow> front_inv c (deallocate c p s)"
  by (simp add: front_inv_def deallocate_def)

lemma cursor_inv_deallocate: "cursor_inv c s \<Longrightarrow> cursor_inv c (deallocate c p s)"
  by (simp add: cursor_inv_def deallocate_def)

lemma chain_inv_deallocate: "chain_inv s \<Longrightarrow> chain_inv (deallocate c p s)"
  by (simp add: chain_inv_def deallocate_def)

lemma links_inv_deallocate: "links_inv s \<Longrightarrow> links_inv (deallocate c p s)"
  unfolding links_inv_def deallocate_def by (auto split: if_splits)

lemma allocate_total:
  assumes "links_inv s" "front_inv c s"
  shows "\<exists>p s'. allocate c s = (Inr p, s')"
proof (cases "firstFreeChunk s")
  case (Some q)
  with assms(1) obtain n where "mem s q = Some (Link n)" by (auto simp: links_inv_def)
  with Some show ?thesis by (simp add: allocate_free)
next
  case None
  show ?thesis
  proof (cases "growSize c \<le> usedChunks s")
    case True
    with None show ?thesis by (simp add: allocate_grow)
  next
    case False
    with assms(2) obtain b where "firstBlock s = Some b" by (auto simp: front_inv_def)
    with None False show ?thesis by (simp add: allocate_bump)
  qed
qed

lemma init_invs:
  "front_inv c (MemoryPool c)" "cursor_inv c (MemoryPool c)" "chain_inv (MemoryPool c)"
  "links_inv (MemoryPool c)"
  by (simp_all add: front_inv_def cursor_inv_def chain_inv_def links_inv_def MemoryPool_def)

lemma run_total:
  "links_inv s \<Longrightarrow> front_inv c s \<Longrightarrow> \<exists>s'. run c ops s = Inr s'"
proof (induction ops arbitrary: s)
  case Nil
  then show ?case by simp
next
  case (Cons x ops)
  show ?case
  proof (cases x)
    case Alloc
    from Cons.prems obtain p s1 where a: "allocate c s = (Inr p, s1)"
      using allocate_total by blast
    with Cons.prems have "links_inv s1" "front_inv c s1"
      by (auto intro: links_inv_allocate front_inv_allocate)
    with Cons.IH obtain s' where "run c ops s1 = Inr s'" by blast
    with Alloc a show ?thesis by simp
  next
    case (Dealloc q)
    from Cons.prems have "links_inv (deallocate c q s)" "front_inv c (deallocate c q s)"
      by (auto intro: links_inv_deallocate front_inv_deallocate)
    with Cons.IH obtain s' where "run c ops (deallocate c q s) = Inr s'" by blast
    with Dealloc show ?thesis by simp
  qed
qed

lemma run_invs:
  assumes "run c ops s = Inr s'"
  shows "front_inv c s \<Longrightarrow> front_inv c s'"
    and "links_inv s \<Longrightarrow> links_inv s'"
    and "chain_inv s \<Longrightarrow> chain_inv s'"
    and "0 < growSize c \<Longrightarrow> cursor_inv c s \<Longrightarrow> cursor_inv c s'"
  using assms
proof (induction ops arbitrary: s)
  case Nil
  { case 1 then show ?case by simp }
  { case 2 then show ?case by simp }
  { case 3 then show ?case by simp }
  { case 4 then show ?case by simp }
next
  case (Cons x ops)
  { case 1 then show ?case using Cons.IH(1)
      by (cases x) (auto split: prod.splits sum.splits intro: front_inv_allocate front_inv_deallocate) }
  { case 2 then show ?case using Cons.IH(2)
      by (cases x) (auto split: prod.splits sum.splits intro: links_inv_allocate links_inv_deallocate) }
  { case 3 then show ?case using Cons.IH(3)
      by (cases x) (auto split: prod.splits sum.splits intro: chain_inv_allocate chain_inv_deallocate) }
  { case 4 then show ?case using Cons.IH(4)
      by (cases x) (auto split: prod.splits sum.splits intro: cursor_inv_allocate cursor_inv_deallocate) }
qed

lemma run_append:
  "run c (xs @ ys) s = (case run c xs s of Inl e \<Rightarrow> Inl e | Inr s' \<Rightarrow> run c ys s')"
proof (induction xs arbitrary: s)
  case Nil
  then show ?case by simp
next
  case (Cons x xs)
  then show ?case by (cases x) (auto split: prod.splits sum.splits)
qed

lemma run_first_block:
  assumes "k < growSize c"
  shows "run c (replicate (Suc k) Alloc) (MemoryPool c :: 'a pool) =
      Inr \<lparr>firstFreeChunk = None, firstBlock = Some 0, usedChunks = Suc k,
           blocks = [0 \<mapsto> None], nextBlock = Suc 0, mem = Map.empty, deleted = [],
           destroyed = [], clobbered = False\<rparr>"
  using assms
proof (induction k)
  case 0
  have "allocate c (MemoryPool c :: 'a pool) =
      (Inr (getChunk c 0 0),
       \<lparr>firstFreeChunk = None, firstBlock = Some 0, usedChunks = Suc 0,
        blocks = [0 \<mapsto> None], nextBlock = Suc 0, mem = Map.empty, deleted = [],
        destroyed = [], clobbered = False\<rparr>)"
    by (simp add: allocate_def new_Block_def MemoryPool_def)
  then show ?case by (simp add: fun_eq_iff)
next
  case (Suc k)
  let ?s = "\<lparr>firstFreeChunk = None, firstBlock = Some 0, usedChunks = Suc k,
           blocks = [0 \<mapsto> None], nextBlock = Suc 0, mem = Map.empty, deleted = [],
           destroyed = [], clobbered = False\<rparr> :: 'a pool"
  let ?s' = "\<lparr>firstFreeChunk = None, firstBlock = Some 0, usedChunks = Suc (Suc k),
           blocks = [0 \<mapsto> None], nextBlock = Suc 0, mem = Map.empty, deleted = [],
           destroyed = [], clobbered = False\<rparr> :: 'a pool"
  from Suc have ih: "run c (replicate (Suc k) Alloc) (MemoryPool c :: 'a pool) = Inr ?s"
    by (metis Suc_lessD)
  have step: "allocate c ?s = (Inr (getChunk c 0 (Suc k)), ?s')"
    using Suc.prems by (simp add: allocate_def)
  have "replicate (Suc (Suc k)) Alloc = replicate (Suc k) Alloc @ [Alloc]"
    by (metis replicate_append_same replicate_Suc)
  then have "run c (replicate (Suc (Suc k)) Alloc) (MemoryPool c :: 'a pool) =
      run c [Alloc] ?s"
    by (simp only: run_append ih sum.case)
  also have "\<dots> = Inr ?s'"
    by (simp only: run.simps step prod.case sum.case)
  finally show ?case .
qed

text \<open>
  C5. With \<open>growSize > 0\<close>, starting from a fresh pool, which has no block: after \<open>k\<close>
  calls of \<open>allocate\<close>, for every \<open>k\<close> from 1 to \<open>growSize\<close>, exactly one block has been
  created (block 0, with a null \<open>next\<close>), so the first call creates it and calls 2 to
  \<open>growSize\<close> create none; after \<open>growSize + 1\<close> calls exactly two blocks have been
  created, the second linked in front of the first.
\<close>

theorem two_slabs:
  assumes "0 < growSize c"
  shows "nextBlock (MemoryPool c :: 'a pool) = 0 \<and>
    (\<forall>k. 1 \<le> k \<and> k \<le> growSize c \<longrightarrow>
       (\<exists>s. run c (replicate k Alloc) (MemoryPool c :: 'a pool) = Inr s \<and>
            nextBlock s = 1 \<and> dom (blocks s) = {0} \<and> firstBlock s = Some 0 \<and>
            blocks s 0 = Some None \<and> usedChunks s = k)) \<and>
    (\<exists>s. run c (replicate (growSize c + 1) Alloc) (MemoryPool c :: 'a pool) = Inr s \<and>
         nextBlock s = 2 \<and> dom (blocks s) = {0, 1} \<and> firstBlock s = Some 1 \<and>
         blocks s 1 = Some (Some 0) \<and> blocks s 0 = Some None \<and> usedChunks s = 1)"
proof (intro conjI allI impI)
  show "nextBlock (MemoryPool c :: 'a pool) = 0" by (simp add: MemoryPool_def)
next
  fix k assume k: "1 \<le> k \<and> k \<le> growSize c"
  then obtain j where j: "k = Suc j" "j < growSize c" by (cases k) auto
  show "\<exists>s. run c (replicate k Alloc) (MemoryPool c :: 'a pool) = Inr s \<and>
            nextBlock s = 1 \<and> dom (blocks s) = {0} \<and> firstBlock s = Some 0 \<and>
            blocks s 0 = Some None \<and> usedChunks s = k"
    unfolding j(1) run_first_block [OF j(2)] by simp
next
  let ?s = "\<lparr>firstFreeChunk = None, firstBlock = Some 0, usedChunks = growSize c,
           blocks = [0 \<mapsto> None], nextBlock = Suc 0, mem = Map.empty, deleted = [],
           destroyed = [], clobbered = False\<rparr> :: 'a pool"
  let ?s2 = "\<lparr>firstFreeChunk = None, firstBlock = Some 1, usedChunks = 1,
           blocks = [0 \<mapsto> None, 1 \<mapsto> Some 0], nextBlock = 2, mem = Map.empty, deleted = [],
           destroyed = [], clobbered = False\<rparr> :: 'a pool"
  have step: "allocate c ?s = (Inr (getChunk c 1 0), ?s2)"
    by (simp add: allocate_def new_Block_def)
  from assms obtain j where j: "growSize c = Suc j" "j < growSize c"
    by (cases "growSize c") auto
  have full: "run c (replicate (growSize c) Alloc) (MemoryPool c :: 'a pool) = Inr ?s"
    using run_first_block [OF j(2), where ?'a = 'a] j(1) by simp
  have "replicate (growSize c + 1) Alloc = replicate (growSize c) Alloc @ [Alloc]"
    by (simp add: replicate_append_same)
  then have "run c (replicate (growSize c + 1) Alloc) (MemoryPool c :: 'a pool) =
      run c [Alloc] ?s"
    by (simp only: run_append full sum.case)
  also have "\<dots> = Inr ?s2"
    by (simp only: run.simps step prod.case sum.case)
  finally have r: "run c (replicate (growSize c + 1) Alloc) (MemoryPool c :: 'a pool) = Inr ?s2" .
  have "nextBlock ?s2 = 2 \<and> dom (blocks ?s2) = {0, 1} \<and> firstBlock ?s2 = Some 1 \<and>
         blocks ?s2 1 = Some (Some 0) \<and> blocks ?s2 0 = Some None \<and> usedChunks ?s2 = 1"
    by auto
  with r show "\<exists>s. run c (replicate (growSize c + 1) Alloc) (MemoryPool c :: 'a pool) = Inr s \<and>
         nextBlock s = 2 \<and> dom (blocks s) = {0, 1} \<and> firstBlock s = Some 1 \<and>
         blocks s 1 = Some (Some 0) \<and> blocks s 0 = Some None \<and> usedChunks s = 1"
    by blast
qed

theorem two_slabs_witness:
  "0 < growSize \<lparr>growSize = 2, sizeofT = 4, sizeofChunk = 8\<rparr> \<and>
   (\<exists>s. run \<lparr>growSize = 2, sizeofT = 4, sizeofChunk = 8\<rparr> [Alloc, Alloc]
           (MemoryPool \<lparr>growSize = 2, sizeofT = 4, sizeofChunk = 8\<rparr> :: nat pool) = Inr s \<and>
        nextBlock s = 1) \<and>
   (\<exists>s. run \<lparr>growSize = 2, sizeofT = 4, sizeofChunk = 8\<rparr> [Alloc, Alloc, Alloc]
           (MemoryPool \<lparr>growSize = 2, sizeofT = 4, sizeofChunk = 8\<rparr> :: nat pool) = Inr s \<and>
        nextBlock s = 2)"
proof -
  let ?c = "\<lparr>growSize = 2, sizeofT = 4, sizeofChunk = 8\<rparr>"
  have h: "0 < growSize ?c" by simp
  have r2: "replicate 2 Alloc = [Alloc, Alloc]" "replicate (growSize ?c + 1) Alloc = [Alloc, Alloc, Alloc]"
    by (simp_all add: numeral_2_eq_2 numeral_3_eq_3)
  from two_slabs [OF h] have
    a: "\<forall>k. 1 \<le> k \<and> k \<le> growSize ?c \<longrightarrow>
       (\<exists>s. run ?c (replicate k Alloc) (MemoryPool ?c :: nat pool) = Inr s \<and>
            nextBlock s = 1 \<and> dom (blocks s) = {0} \<and> firstBlock s = Some 0 \<and>
            blocks s 0 = Some None \<and> usedChunks s = k)"
    and b: "\<exists>s. run ?c (replicate (growSize ?c + 1) Alloc) (MemoryPool ?c :: nat pool) = Inr s \<and>
         nextBlock s = 2 \<and> dom (blocks s) = {0, 1} \<and> firstBlock s = Some 1 \<and>
         blocks s 1 = Some (Some 0) \<and> blocks s 0 = Some None \<and> usedChunks s = 1"
    by blast+
  from a have "\<exists>s. run ?c (replicate 2 Alloc) (MemoryPool ?c :: nat pool) = Inr s \<and> nextBlock s = 1"
    by (auto dest: spec [of _ 2])
  with b h show ?thesis unfolding r2 by blast
qed

text \<open>
  C1. In every state the pool reaches by \<open>allocate\<close> and \<open>deallocate\<close> calls,
  \<open>allocate()\<close> does exactly one of three things. If the free list is non-empty it pops
  the head \<open>p\<close>, returns \<open>p\<close> and changes nothing but the free-list head: no block is
  created and the cursor does not move. Otherwise, if there is no block or the cursor has
  reached \<open>growSize\<close>, it creates a block whose \<open>next\<close> is the old \<open>firstBlock\<close>, makes
  it \<open>firstBlock\<close>, returns its slot 0 and leaves the cursor at 1. Otherwise it returns
  the slot of \<open>firstBlock\<close> at the cursor and advances the cursor by one.
\<close>

theorem allocate_algorithm:
  assumes "run c ops (MemoryPool c) = Inr (s :: 'a pool)"
  shows "(\<forall>p. firstFreeChunk s = Some p \<longrightarrow>
            (\<exists>n. mem s p = Some (Link n) \<and> allocate c s = (Inr p, s\<lparr>firstFreeChunk := n\<rparr>))) \<and>
         (firstFreeChunk s = None \<and> (firstBlock s = None \<or> growSize c \<le> usedChunks s) \<longrightarrow>
            allocate c s =
              (Inr (getChunk c (nextBlock s) 0),
               s\<lparr>blocks := (blocks s)(nextBlock s \<mapsto> firstBlock s),
                 nextBlock := Suc (nextBlock s),
                 firstBlock := Some (nextBlock s), usedChunks := 1\<rparr>)) \<and>
         (\<forall>b. firstFreeChunk s = None \<and> firstBlock s = Some b \<and> usedChunks s < growSize c \<longrightarrow>
            allocate c s =
              (Inr (getChunk c b (usedChunks s)), s\<lparr>usedChunks := usedChunks s + 1\<rparr>))"
proof -
  from assms have l: "links_inv s" and f: "front_inv c s"
    using run_invs(1,2) init_invs by blast+
  have "\<exists>n. mem s p = Some (Link n) \<and> allocate c s = (Inr p, s\<lparr>firstFreeChunk := n\<rparr>)"
    if "firstFreeChunk s = Some p" for p
  proof -
    from l that obtain n where "mem s p = Some (Link n)" by (auto simp: links_inv_def)
    with that show ?thesis by (simp add: allocate_free)
  qed
  moreover have "allocate c s =
      (Inr (getChunk c (nextBlock s) 0),
       s\<lparr>blocks := (blocks s)(nextBlock s \<mapsto> firstBlock s), nextBlock := Suc (nextBlock s),
         firstBlock := Some (nextBlock s), usedChunks := 1\<rparr>)"
    if "firstFreeChunk s = None \<and> (firstBlock s = None \<or> growSize c \<le> usedChunks s)"
  proof -
    from that f have "growSize c \<le> usedChunks s" by (auto simp: front_inv_def)
    with that show ?thesis by (simp add: allocate_grow)
  qed
  moreover have "allocate c s =
      (Inr (getChunk c b (usedChunks s)), s\<lparr>usedChunks := usedChunks s + 1\<rparr>)"
    if "firstFreeChunk s = None \<and> firstBlock s = Some b \<and> usedChunks s < growSize c" for b
    using that by (simp add: allocate_bump)
  ultimately show ?thesis by blast
qed

theorem allocate_algorithm_witness:
  "fst (allocate \<lparr>growSize = 2, sizeofT = 4, sizeofChunk = 8\<rparr>
          (MemoryPool \<lparr>growSize = 2, sizeofT = 4, sizeofChunk = 8\<rparr> :: nat pool)) = Inr (Addr 0 0) \<and>
   fst (allocate \<lparr>growSize = 2, sizeofT = 4, sizeofChunk = 8\<rparr>
          (\<lparr>firstFreeChunk = None, firstBlock = Some 0, usedChunks = 1,
            blocks = [0 \<mapsto> None], nextBlock = 1, mem = Map.empty, deleted = [],
            destroyed = [], clobbered = False\<rparr> :: nat pool)) = Inr (Addr 0 8) \<and>
   fst (allocate \<lparr>growSize = 2, sizeofT = 4, sizeofChunk = 8\<rparr>
          (\<lparr>firstFreeChunk = Some (Addr 0 0), firstBlock = Some 0, usedChunks = 1,
            blocks = [0 \<mapsto> None], nextBlock = 1, mem = [Addr 0 0 \<mapsto> Link None],
            deleted = [], destroyed = [], clobbered = False\<rparr> :: nat pool)) = Inr (Addr 0 0)"
proof -
  let ?c = "\<lparr>growSize = 2, sizeofT = 4, sizeofChunk = 8\<rparr>"
  let ?s1 = "\<lparr>firstFreeChunk = None, firstBlock = Some 0, usedChunks = 1,
            blocks = [0 \<mapsto> None], nextBlock = 1, mem = Map.empty, deleted = [],
            destroyed = [], clobbered = False\<rparr> :: nat pool"
  let ?s2 = "\<lparr>firstFreeChunk = Some (Addr 0 0), firstBlock = Some 0, usedChunks = 1,
            blocks = [0 \<mapsto> None], nextBlock = 1, mem = [Addr 0 0 \<mapsto> Link None],
            deleted = [], destroyed = [], clobbered = False\<rparr> :: nat pool"
  have h0: "run ?c [] (MemoryPool ?c :: nat pool) = Inr (MemoryPool ?c)"
    by simp
  have h1: "run ?c [Alloc] (MemoryPool ?c :: nat pool) = Inr ?s1"
    by (simp add: allocate_def new_Block_def MemoryPool_def)
  have h2: "run ?c [Alloc, Dealloc (Addr 0 0)] (MemoryPool ?c :: nat pool) = Inr ?s2"
    by (simp add: allocate_def new_Block_def MemoryPool_def deallocate_def in_data_def
        array_bound_def chunkSize_def size_range_def)
  have "fst (allocate ?c (MemoryPool ?c :: nat pool)) = Inr (Addr 0 0)"
    using allocate_algorithm [OF h0] by (simp add: MemoryPool_def getChunk_def)
  moreover have "fst (allocate ?c ?s1) = Inr (Addr 0 8)"
    using allocate_algorithm [OF h1] by (simp add: getChunk_def chunkSize_def size_range_def)
  moreover have "fst (allocate ?c ?s2) = Inr (Addr 0 0)"
    using allocate_algorithm [OF h2] by auto
  ultimately show ?thesis by blast
qed

text \<open>
  The bound on the cursor depends on \<open>growSize > 0\<close>. With \<open>growSize = 0\<close>, an
  instantiation that line 26 makes ill-formed (an array of zero bytes), the first
  \<open>allocate\<close> would leave the cursor at 1.
\<close>

lemma zero_growSize_cursor:
  "growSize c = 0 \<Longrightarrow> usedChunks (snd (allocate c (MemoryPool c))) = 1"
  by (simp add: allocate_def new_Block_def MemoryPool_def)

text \<open>
  C9. With \<open>growSize > 0\<close>, which the array declared at line 26 requires, every sequence
  of \<open>allocate\<close> and \<open>deallocate\<close> calls on a fresh pool runs without failure, and in the
  state it reaches the cursor is at most \<open>growSize\<close> and equals \<open>growSize\<close> when there is
  no block. When the free list is empty (the bump-allocation path), \<open>allocate\<close> returns
  slot \<open>i\<close> of block \<open>b\<close> with \<open>i < growSize\<close>, where \<open>b\<close> is a live block and the
  \<open>firstBlock\<close> of the state after the call: a block exists before it is indexed, and
  the index stays within the block.
\<close>

theorem cursor_bounds:
  assumes "0 < growSize c"
  shows "\<exists>s. run c ops (MemoryPool c :: 'a pool) = Inr s \<and>
           usedChunks s \<le> growSize c \<and>
           (firstBlock s = None \<longrightarrow> usedChunks s = growSize c) \<and>
           (firstFreeChunk s = None \<longrightarrow>
              (\<exists>b i s'. allocate c s = (Inr (getChunk c b i), s') \<and> i < growSize c \<and>
                 firstBlock s' = Some b \<and> blocks s' b \<noteq> None \<and> usedChunks s' = i + 1))"
proof -
  obtain s where r: "run c ops (MemoryPool c :: 'a pool) = Inr s"
    using run_total [OF init_invs(4) init_invs(1)] by blast
  with assms have ci: "cursor_inv c s" and ch: "chain_inv s"
    using run_invs(3,4) init_invs by blast+
  have "\<exists>b i s'. allocate c s = (Inr (getChunk c b i), s') \<and> i < growSize c \<and>
                 firstBlock s' = Some b \<and> blocks s' b \<noteq> None \<and> usedChunks s' = i + 1"
    if n: "firstFreeChunk s = None"
  proof (cases "growSize c \<le> usedChunks s")
    case True
    with n assms show ?thesis by (auto simp: allocate_grow)
  next
    case False
    with ci obtain b where b: "firstBlock s = Some b" by (auto simp: cursor_inv_def)
    with ch have "blocks s b \<noteq> None" by (auto simp: chain_inv_def split: if_splits)
    with n b False show ?thesis by (simp add: allocate_bump)
  qed
  with r ci show ?thesis by (auto simp: cursor_inv_def)
qed

theorem cursor_bounds_witness:
  "0 < growSize \<lparr>growSize = 2, sizeofT = 4, sizeofChunk = 8\<rparr> \<and>
   firstBlock (MemoryPool \<lparr>growSize = 2, sizeofT = 4, sizeofChunk = 8\<rparr> :: nat pool) = None \<and>
   firstFreeChunk (MemoryPool \<lparr>growSize = 2, sizeofT = 4, sizeofChunk = 8\<rparr> :: nat pool) = None \<and>
   usedChunks (MemoryPool \<lparr>growSize = 2, sizeofT = 4, sizeofChunk = 8\<rparr> :: nat pool) = 2 \<and>
   (\<exists>b i s'. allocate \<lparr>growSize = 2, sizeofT = 4, sizeofChunk = 8\<rparr>
               (MemoryPool \<lparr>growSize = 2, sizeofT = 4, sizeofChunk = 8\<rparr> :: nat pool) =
               (Inr (getChunk \<lparr>growSize = 2, sizeofT = 4, sizeofChunk = 8\<rparr> b i), s') \<and>
             i < 2 \<and> firstBlock s' = Some b \<and> blocks s' b \<noteq> None)"
proof -
  let ?c = "\<lparr>growSize = 2, sizeofT = 4, sizeofChunk = 8\<rparr>"
  have h: "0 < growSize ?c" by simp
  have e: "firstBlock (MemoryPool ?c :: nat pool) = None"
    "firstFreeChunk (MemoryPool ?c :: nat pool) = None"
    "usedChunks (MemoryPool ?c :: nat pool) = 2"
    by (simp_all add: MemoryPool_def)
  from cursor_bounds [OF h, of "[]", where ?'a = nat]
  have "firstFreeChunk (MemoryPool ?c :: nat pool) = None \<longrightarrow>
     (\<exists>b i s'. allocate ?c (MemoryPool ?c :: nat pool) = (Inr (getChunk ?c b i), s') \<and>
        i < growSize ?c \<and> firstBlock s' = Some b \<and> blocks s' b \<noteq> None \<and> usedChunks s' = i + 1)"
    by simp
  with e have "\<exists>b i s'. allocate ?c (MemoryPool ?c :: nat pool) = (Inr (getChunk ?c b i), s') \<and>
        i < 2 \<and> firstBlock s' = Some b \<and> blocks s' b \<noteq> None"
    by auto
  with h e show ?thesis by blast
qed

section \<open>Teardown\<close>

lemma dtor_chain:
  "\<not> clobbered s \<Longrightarrow>
   firstBlock s = (if k = 0 then None else Some (k - 1)) \<Longrightarrow>
   (\<forall>i<k. blocks s i = Some (if i = 0 then None else Some (i - 1))) \<Longrightarrow>
   MemoryPool_dtor s =
     Some (Inr (s\<lparr>blocks := (\<lambda>i. if i < k then None else blocks s i),
                  deleted := deleted s @ rev [0..<k], firstBlock := None\<rparr>))"
proof (induction k arbitrary: s)
  case 0
  then show ?case by (subst MemoryPool_dtor.simps) simp
next
  case (Suc k)
  let ?t = "s\<lparr>blocks := (blocks s)(k := None), deleted := deleted s @ [k],
              firstBlock := (if k = 0 then None else Some (k - 1))\<rparr>"
  from Suc.prems have fb: "firstBlock s = Some k"
    and bk: "blocks s k = Some (if k = 0 then None else Some (k - 1))"
    and nc: "\<not> clobbered s"
    by simp_all
  have unfold: "MemoryPool_dtor s = MemoryPool_dtor ?t"
    by (subst MemoryPool_dtor.simps) (simp add: fb bk nc)
  have "\<not> clobbered ?t" using nc by simp
  moreover have "firstBlock ?t = (if k = 0 then None else Some (k - 1))" by simp
  moreover have "\<forall>i<k. blocks ?t i = Some (if i = 0 then None else Some (i - 1))"
    using Suc.prems(3) by simp
  ultimately have "MemoryPool_dtor ?t =
     Some (Inr (?t\<lparr>blocks := (\<lambda>i. if i < k then None else blocks ?t i),
                  deleted := deleted ?t @ rev [0..<k], firstBlock := None\<rparr>))"
    by (rule Suc.IH)
  also have "?t\<lparr>blocks := (\<lambda>i. if i < k then None else blocks ?t i),
                  deleted := deleted ?t @ rev [0..<k], firstBlock := None\<rparr> =
     s\<lparr>blocks := (\<lambda>i. if i < Suc k then None else blocks s i),
                  deleted := deleted s @ rev [0..<Suc k], firstBlock := None\<rparr>"
    by (auto simp: fun_eq_iff)
  finally have "MemoryPool_dtor ?t =
     Some (Inr (s\<lparr>blocks := (\<lambda>i. if i < Suc k then None else blocks s i),
                  deleted := deleted s @ rev [0..<Suc k], firstBlock := None\<rparr>))" .
  with unfold show ?case by (rule trans)
qed

lemma allocate_no_BadAlloc: "allocate c s \<noteq> (Inl BadAlloc, s')"
  by (auto simp: allocate_def Let_def split: option.splits cell.splits)

lemma chain_inv_construct: "chain_inv s \<Longrightarrow> chain_inv (construct c p v s)"
  by (simp add: chain_inv_def construct_def)

lemma chain_inv_destroy: "chain_inv s \<Longrightarrow> chain_inv (destroy p s)"
  by (simp add: chain_inv_def destroy_def)

lemma allocate_destroyed: "allocate c s = (Inr p, s') \<Longrightarrow> destroyed s' = destroyed s"
  by (erule allocate_cases) auto

lemma exec_chain_inv:
  "exec c cs s = Inr s' \<Longrightarrow> chain_inv s \<Longrightarrow> chain_inv s'"
proof (induction cs arbitrary: s)
  case Nil
  then show ?case by simp
next
  case (Cons x cs)
  show ?case
  proof (cases x)
    case (Allocate n hint)
    show ?thesis
    proof (cases "n \<noteq> 1 \<or> hint \<noteq> None")
      case True
      with Allocate Cons.prems have "exec c cs s = Inr s'"
        by (simp add: Allocator_allocate_def)
      with Cons show ?thesis by blast
    next
      case False
      with Allocate Cons.prems obtain p s1 where
        "allocate c s = (Inr p, s1)" "exec c cs s1 = Inr s'"
        by (auto simp: Allocator_allocate_def allocate_no_BadAlloc
            split: prod.splits sum.splits if_splits)
      with Cons show ?thesis using chain_inv_allocate by blast
    qed
  next
    case (Deallocate p n)
    with Cons show ?thesis
      by (auto simp: Allocator_deallocate_def intro: chain_inv_deallocate)
  next
    case (Construct p v)
    with Cons show ?thesis by (auto intro: chain_inv_construct)
  next
    case (Destroy p)
    with Cons show ?thesis by (auto intro: chain_inv_destroy)
  qed
qed

lemma exec_destroyed:
  "exec c cs s = Inr s' \<Longrightarrow> destroyed s' = destroyed s @ destroy_calls cs"
proof (induction cs arbitrary: s)
  case Nil
  then show ?case by simp
next
  case (Cons x cs)
  show ?case
  proof (cases x)
    case (Allocate n hint)
    show ?thesis
    proof (cases "n \<noteq> 1 \<or> hint \<noteq> None")
      case True
      with Allocate Cons.prems have "exec c cs s = Inr s'"
        by (simp add: Allocator_allocate_def)
      with Cons.IH Allocate show ?thesis by simp
    next
      case False
      with Allocate Cons.prems obtain p s1 where
        "allocate c s = (Inr p, s1)" "exec c cs s1 = Inr s'"
        by (auto simp: Allocator_allocate_def allocate_no_BadAlloc
            split: prod.splits sum.splits if_splits)
      with Cons.IH Allocate show ?thesis using allocate_destroyed by fastforce
    qed
  next
    case (Deallocate p n)
    with Cons show ?thesis
      by (fastforce simp: Allocator_deallocate_def deallocate_def)
  next
    case (Construct p v)
    with Cons show ?thesis by (fastforce simp: construct_def)
  next
    case (Destroy p)
    with Cons show ?thesis by (fastforce simp: destroy_def)
  qed
qed

text \<open>
  C8. Claim as stated: teardown after any calls releases every slab exactly once. It
  fails after calls on slots that \<open>allocate(1)\<close> itself handed out: in
  \<open>Allocator<uint64_t, 2^61 + 1>\<close> the array has 8 bytes, the second \<open>allocate(1)\<close>
  returns \<open>&data[8]\<close>, \<open>construct\<close> on it writes outside the array, and the destructor
  then follows a \<open>next\<close> pointer that need not be the one the constructor stored.
\<close>

theorem teardown_counterexample:
  "valid_config \<lparr>growSize = 2 ^ 61 + 1, sizeofT = 8, sizeofChunk = 8\<rparr> \<and>
   fst (Allocator_allocate \<lparr>growSize = 2 ^ 61 + 1, sizeofT = 8, sizeofChunk = 8\<rparr> 1
     (None :: addr option)
     (\<lparr>firstFreeChunk = None, firstBlock = Some 0, usedChunks = 1,
       blocks = [0 \<mapsto> None], nextBlock = 1, mem = Map.empty, deleted = [],
       destroyed = [], clobbered = False\<rparr> :: nat pool)) = Inr (Addr 0 8) \<and>
   exec \<lparr>growSize = 2 ^ 61 + 1, sizeofT = 8, sizeofChunk = 8\<rparr>
     [Allocate 1 None, Allocate 1 None, Construct (Addr 0 8) 7]
     (MemoryPool \<lparr>growSize = 2 ^ 61 + 1, sizeofT = 8, sizeofChunk = 8\<rparr> :: nat pool) =
     Inr \<lparr>firstFreeChunk = None, firstBlock = Some 0, usedChunks = 2,
          blocks = [0 \<mapsto> None], nextBlock = 1, mem = [Addr 0 8 \<mapsto> Elem 7], deleted = [],
          destroyed = [], clobbered = True\<rparr> \<and>
   MemoryPool_dtor
     (\<lparr>firstFreeChunk = None, firstBlock = Some 0, usedChunks = 2,
       blocks = [0 \<mapsto> None], nextBlock = 1, mem = [Addr 0 8 \<mapsto> Elem 7], deleted = [],
       destroyed = [], clobbered = True\<rparr> :: nat pool) = Some (Inl Clobbered)"
proof -
  let ?c = "\<lparr>growSize = 2 ^ 61 + 1, sizeofT = 8, sizeofChunk = 8\<rparr>"
  let ?s = "\<lparr>firstFreeChunk = None, firstBlock = Some 0, usedChunks = 2,
       blocks = [0 \<mapsto> None], nextBlock = 1, mem = [Addr 0 8 \<mapsto> Elem 7], deleted = [],
       destroyed = [], clobbered = True\<rparr> :: nat pool"
  have "MemoryPool_dtor ?s = Some (Inl Clobbered)"
    by (subst MemoryPool_dtor.simps) simp
  moreover have "valid_config ?c"
    by (simp add: valid_config_def array_bound_def chunkSize_def size_range_def)
  moreover have "fst (Allocator_allocate ?c 1 (None :: addr option)
     (\<lparr>firstFreeChunk = None, firstBlock = Some 0, usedChunks = 1,
       blocks = [0 \<mapsto> None], nextBlock = 1, mem = Map.empty, deleted = [],
       destroyed = [], clobbered = False\<rparr> :: nat pool)) = Inr (Addr 0 8)"
    by (simp add: Allocator_allocate_def allocate_def getChunk_def chunkSize_def
        size_range_def)
  moreover have "exec ?c [Allocate 1 None, Allocate 1 None, Construct (Addr 0 8) 7]
     (MemoryPool ?c :: nat pool) = Inr ?s"
    by (simp add: Allocator_allocate_def allocate_def new_Block_def MemoryPool_def
        getChunk_def construct_def in_data_def array_bound_def chunkSize_def size_range_def)
  ultimately show ?thesis by blast
qed

text \<open>
  C8, amended. In every state the pool reaches by calls of the Allocator's operations
  none of which wrote outside the \<open>data\<close> array of a live block, the destructor
  terminates without error. It deletes the blocks from the newest to the oldest,
  following the \<open>next\<close> links from \<open>firstBlock\<close>: every live block is deleted, none
  twice, and no block remains. The trace of element-destructor calls is the same after
  the destructor as before it, and it consists of exactly the slots the caller passed
  to \<open>destroy\<close>, in the order of the calls.
\<close>

theorem teardown:
  assumes "exec c cs (MemoryPool c) = Inr (s :: 'a pool)" and "\<not> clobbered s"
  shows "\<exists>s'. MemoryPool_dtor s = Some (Inr s') \<and>
           deleted s' = rev [0..<nextBlock s] \<and>
           distinct (deleted s') \<and> set (deleted s') = dom (blocks s) \<and>
           blocks s' = Map.empty \<and> firstBlock s' = None \<and>
           destroyed s' = destroyed s \<and> destroyed s = destroy_calls cs"
proof -
  from assms(1) have ch: "chain_inv s"
    using exec_chain_inv init_invs(3) by blast
  from assms(1) have d: "destroyed s = destroy_calls cs"
    using exec_destroyed [of c cs "MemoryPool c" s] by (simp add: MemoryPool_def)
  let ?s' = "s\<lparr>blocks := (\<lambda>i. if i < nextBlock s then None else blocks s i),
               deleted := deleted s @ rev [0..<nextBlock s], firstBlock := None\<rparr>"
  from ch assms(2) have "MemoryPool_dtor s = Some (Inr ?s')"
    by (intro dtor_chain) (simp_all add: chain_inv_def)
  moreover from ch have "deleted ?s' = rev [0..<nextBlock s]" by (simp add: chain_inv_def)
  moreover from ch have "blocks ?s' = Map.empty" by (auto simp: chain_inv_def fun_eq_iff)
  moreover from ch have "dom (blocks s) = {..<nextBlock s}"
    by (auto simp: chain_inv_def dom_def)
  ultimately show ?thesis using d
    by (intro exI [of _ ?s']) (simp add: atLeast0LessThan)
qed

theorem teardown_witness:
  "\<not> clobbered
      (\<lparr>firstFreeChunk = None, firstBlock = Some 1, usedChunks = 1,
        blocks = [0 \<mapsto> None, 1 \<mapsto> Some 0], nextBlock = 2, mem = [Addr 0 0 \<mapsto> Elem 7],
        deleted = [], destroyed = [Addr 0 0], clobbered = False\<rparr> :: nat pool) \<and>
   (\<exists>s'. MemoryPool_dtor
          (\<lparr>firstFreeChunk = None, firstBlock = Some 1, usedChunks = 1,
            blocks = [0 \<mapsto> None, 1 \<mapsto> Some 0], nextBlock = 2, mem = [Addr 0 0 \<mapsto> Elem 7],
            deleted = [], destroyed = [Addr 0 0], clobbered = False\<rparr> :: nat pool) =
          Some (Inr s') \<and>
        deleted s' = [1, 0] \<and> blocks s' = Map.empty \<and> destroyed s' = [Addr 0 0])"
proof -
  let ?c = "\<lparr>growSize = 1, sizeofT = 4, sizeofChunk = 8\<rparr>"
  let ?s = "\<lparr>firstFreeChunk = None, firstBlock = Some 1, usedChunks = 1,
            blocks = [0 \<mapsto> None, 1 \<mapsto> Some 0], nextBlock = 2, mem = [Addr 0 0 \<mapsto> Elem 7],
            deleted = [], destroyed = [Addr 0 0], clobbered = False\<rparr> :: nat pool"
  have h: "exec ?c [Allocate 1 None, Construct (Addr 0 0) 7, Allocate 1 None,
             Destroy (Addr 0 0)] (MemoryPool ?c :: nat pool) = Inr ?s"
    by (simp add: Allocator_allocate_def allocate_def new_Block_def MemoryPool_def
        destroy_def construct_def in_data_def array_bound_def chunkSize_def size_range_def
        getChunk_def)
  have n: "\<not> clobbered ?s" by simp
  have "rev [0..<nextBlock ?s] = [1, 0]"
    by (simp add: numeral_2_eq_2)
  with teardown [OF h n] n show ?thesis by auto
qed

section \<open>Live addresses\<close>

lemma valid_configD: "valid_config c \<Longrightarrow> 0 < chunkSize c \<and> 0 < growSize c"
  unfolding valid_config_def array_bound_def
  by (cases "chunkSize c = 0 \<or> growSize c = 0") auto

lemma array_bound_no_wrap: "no_wrap c \<Longrightarrow> array_bound c = chunkSize c * growSize c"
  by (simp add: no_wrap_def array_bound_def)

lemma getChunk_no_wrap:
  assumes "no_wrap c" "i < growSize c"
  shows "getChunk c b i = Addr b (chunkSize c * i)"
proof -
  from assms(2) have "chunkSize c * i \<le> chunkSize c * growSize c" by simp
  then have "chunkSize c * i < size_range"
    using assms(1) unfolding no_wrap_def by (rule le_less_trans)
  then show ?thesis by (simp add: getChunk_def)
qed

lemma getChunk_inj:
  assumes "no_wrap c" "0 < chunkSize c" "i < growSize c" "i' < growSize c"
  shows "getChunk c b i = getChunk c b' i' \<longleftrightarrow> b = b' \<and> i = i'"
  using assms by (simp add: getChunk_no_wrap)

lemma fl_path_upd:
  "p \<notin> set fl \<Longrightarrow> fl_path (m(p \<mapsto> x)) h fl = fl_path m h fl"
  by (induction fl arbitrary: h) (auto split: option.splits cell.splits)

lemma carvedI:
  "b < nextBlock s \<Longrightarrow> (if Suc b = nextBlock s then i < usedChunks s else i < growSize c) \<Longrightarrow>
   carved c s (getChunk c b i)"
  unfolding carved_def by blast

lemma carvedD:
  assumes "carved c s a"
  shows "\<exists>b i. a = getChunk c b i \<and> b < nextBlock s \<and>
     (Suc b = nextBlock s \<longrightarrow> i < usedChunks s) \<and> (Suc b \<noteq> nextBlock s \<longrightarrow> i < growSize c)"
proof -
  from assms obtain b i where "a = getChunk c b i" "b < nextBlock s"
    "if Suc b = nextBlock s then i < usedChunks s else i < growSize c"
    unfolding carved_def by blast
  then show ?thesis by (intro exI [of _ b] exI [of _ i]) (simp split: if_splits)
qed

lemma carved_bounded:
  assumes "carved c s a" "usedChunks s \<le> growSize c"
  shows "\<exists>b i. a = getChunk c b i \<and> b < nextBlock s \<and> i < growSize c \<and>
     (Suc b = nextBlock s \<longrightarrow> i < usedChunks s)"
proof -
  from carvedD [OF assms(1)] obtain b i where bi: "a = getChunk c b i" "b < nextBlock s"
    and i: "Suc b = nextBlock s \<longrightarrow> i < usedChunks s"
      "Suc b \<noteq> nextBlock s \<longrightarrow> i < growSize c"
    by blast
  from i assms(2) have "i < growSize c" by (cases "Suc b = nextBlock s") auto
  with bi i(1) show ?thesis by blast
qed

lemma in_data_mono: "in_data c s a n \<Longrightarrow> m \<le> n \<Longrightarrow> in_data c s a m"
  by (simp add: in_data_def)

lemma carved_in_data:
  assumes "no_wrap c" "carved c s a" "usedChunks s \<le> growSize c"
    "\<forall>b<nextBlock s. blocks s b \<noteq> None"
  shows "in_data c s a (chunkSize c)"
proof -
  from carved_bounded [OF assms(2,3)] obtain b i where bi: "a = getChunk c b i"
    "b < nextBlock s" "i < growSize c"
    by blast
  from bi(3) have "chunkSize c * Suc i \<le> chunkSize c * growSize c"
    by (intro mult_le_mono2) simp
  then have "chunkSize c * i + chunkSize c \<le> array_bound c"
    using assms(1) by (simp add: array_bound_no_wrap)
  with bi assms(1,4) show ?thesis
    by (simp add: in_data_def getChunk_no_wrap)
qed

lemma live_invI:
  "fl_path (mem s) (firstFreeChunk s) fl \<Longrightarrow> distinct (fl @ live) \<Longrightarrow>
   (\<forall>a \<in> set (fl @ live). carved c s a) \<Longrightarrow> cursor_inv c s \<Longrightarrow>
   firstBlock s = (if nextBlock s = 0 then None else Some (nextBlock s - 1)) \<Longrightarrow>
   (\<forall>b<nextBlock s. blocks s b \<noteq> None) \<Longrightarrow> \<not> clobbered s \<Longrightarrow>
   live_inv c s live"
  unfolding live_inv_def by blast

lemma live_invE:
  assumes "live_inv c s live"
  obtains fl where "fl_path (mem s) (firstFreeChunk s) fl" "distinct (fl @ live)"
    "\<forall>a \<in> set (fl @ live). carved c s a" "cursor_inv c s"
    "firstBlock s = (if nextBlock s = 0 then None else Some (nextBlock s - 1))"
    "\<forall>b<nextBlock s. blocks s b \<noteq> None" "\<not> clobbered s"
  using assms unfolding live_inv_def by blast

lemma live_inv_init: "live_inv c (MemoryPool c) []"
  by (rule live_invI [where fl = "[]"]) (simp_all add: MemoryPool_def cursor_inv_def)

lemma live_inv_deallocate:
  assumes nw: "no_wrap c" and inv: "live_inv c s live" and pl: "p \<in> set live"
  shows "live_inv c (deallocate c p s) (remove1 p live)"
proof -
  from inv obtain fl where fl: "fl_path (mem s) (firstFreeChunk s) fl"
    "distinct (fl @ live)" "\<forall>a \<in> set (fl @ live). carved c s a"
    and rest: "cursor_inv c s"
      "firstBlock s = (if nextBlock s = 0 then None else Some (nextBlock s - 1))"
      "\<forall>b<nextBlock s. blocks s b \<noteq> None" "\<not> clobbered s"
    by (rule live_invE)
  from fl(2) pl have nfl: "p \<notin> set fl" by auto
  from rest(1) have u: "usedChunks s \<le> growSize c" by (simp add: cursor_inv_def)
  from fl(3) pl have "carved c s p" by simp
  with nw have "in_data c s p (chunkSize c)" using u rest(3) by (rule carved_in_data)
  then have ind: "in_data c s p (sizeofChunk c)"
    by (rule in_data_mono) (simp add: chunkSize_def)
  have c: "carved c (deallocate c p s) a = carved c s a" for a
    by (simp add: carved_def deallocate_def)
  have sub: "set (remove1 p live) \<subseteq> set live" by (rule set_remove1_subset)
  have dl: "distinct live" using fl(2) by simp
  have "fl_path (mem (deallocate c p s)) (firstFreeChunk (deallocate c p s)) (p # fl)"
    using fl(1) nfl by (simp add: deallocate_def fl_path_upd)
  moreover have "distinct ((p # fl) @ remove1 p live)"
    using fl(2) nfl sub dl by (auto simp: distinct_remove1)
  moreover have "\<forall>a \<in> set ((p # fl) @ remove1 p live). carved c (deallocate c p s) a"
    using fl(3) pl sub by (auto simp: c)
  moreover have "cursor_inv c (deallocate c p s)"
    using rest(1) by (rule cursor_inv_deallocate)
  moreover have "firstBlock (deallocate c p s) =
      (if nextBlock (deallocate c p s) = 0 then None
       else Some (nextBlock (deallocate c p s) - 1))"
    using rest(2) by (simp add: deallocate_def)
  moreover have "\<forall>b<nextBlock (deallocate c p s). blocks (deallocate c p s) b \<noteq> None"
    using rest(3) by (simp add: deallocate_def)
  moreover have "\<not> clobbered (deallocate c p s)"
    using rest(4) ind by (simp add: deallocate_def)
  ultimately show ?thesis by (rule live_invI)
qed

lemma live_inv_allocate:
  assumes v: "valid_config c" and nw: "no_wrap c" and inv: "live_inv c s live"
  shows "\<exists>p s'. allocate c s = (Inr p, s') \<and> live_inv c s' (p # live)"
proof -
  from v have cs: "0 < chunkSize c" and gs: "0 < growSize c"
    by (simp_all add: valid_configD)
  from inv obtain fl where fl: "fl_path (mem s) (firstFreeChunk s) fl"
    "distinct (fl @ live)" "\<forall>a \<in> set (fl @ live). carved c s a"
    and ci: "cursor_inv c s"
    and fb: "firstBlock s = (if nextBlock s = 0 then None else Some (nextBlock s - 1))"
    and bl: "\<forall>b<nextBlock s. blocks s b \<noteq> None" and nc: "\<not> clobbered s"
    by (rule live_invE)
  from ci have u: "usedChunks s \<le> growSize c" by (simp add: cursor_inv_def)
  show ?thesis
  proof (cases "firstFreeChunk s")
    case (Some q)
    with fl(1) obtain fl' n where q: "fl = q # fl'" "mem s q = Some (Link n)"
      "fl_path (mem s) n fl'"
      by (cases fl) (auto split: option.splits cell.splits)
    let ?s' = "s\<lparr>firstFreeChunk := n\<rparr>"
    have a: "allocate c s = (Inr q, ?s')" using Some q(2) by (rule allocate_free)
    have c: "carved c ?s' a = carved c s a" for a by (simp add: carved_def)
    have "fl_path (mem ?s') (firstFreeChunk ?s') fl'" using q(3) by simp
    moreover have "distinct (fl' @ q # live)" using fl(2) q(1) by auto
    moreover have "\<forall>a \<in> set (fl' @ q # live). carved c ?s' a"
      using fl(3) q(1) by (auto simp: c)
    moreover have "cursor_inv c ?s'" using gs a ci by (rule cursor_inv_allocate)
    moreover have "firstBlock ?s' =
        (if nextBlock ?s' = 0 then None else Some (nextBlock ?s' - 1))"
      using fb by simp
    moreover have "\<forall>b<nextBlock ?s'. blocks ?s' b \<noteq> None" using bl by simp
    moreover have "\<not> clobbered ?s'" using nc by simp
    ultimately have "live_inv c ?s' (q # live)" by (rule live_invI)
    with a show ?thesis by blast
  next
    case None
    with fl(1) have e: "fl = []" by (cases fl) auto
    from fl(3) have allc: "\<forall>a \<in> set live. carved c s a" by simp
    show ?thesis
    proof (cases "growSize c \<le> usedChunks s")
      case True
      with u have full: "usedChunks s = growSize c" by simp
      let ?p = "getChunk c (nextBlock s) 0"
      let ?s' = "s\<lparr>blocks := (blocks s)(nextBlock s \<mapsto> firstBlock s),
        nextBlock := Suc (nextBlock s), firstBlock := Some (nextBlock s),
        usedChunks := Suc 0\<rparr>"
      have a: "allocate c s = (Inr ?p, ?s')" using None True by (rule allocate_grow)
      have old: "carved c ?s' a" if "carved c s a" for a
      proof -
        from carved_bounded [OF that u] obtain b i where bi: "a = getChunk c b i"
          "b < nextBlock s" "i < growSize c"
          by blast
        then show ?thesis unfolding bi(1) by (intro carvedI) auto
      qed
      have new: "carved c ?s' ?p" by (intro carvedI) auto
      have fresh: "?p \<notin> set live"
      proof
        assume "?p \<in> set live"
        with allc have "carved c s ?p" by simp
        from carved_bounded [OF this u] obtain b i where bi: "?p = getChunk c b i"
          "b < nextBlock s" "i < growSize c"
          by blast
        from bi(1) have "nextBlock s = b"
          using getChunk_inj [OF nw cs gs bi(3), of "nextBlock s" b] by simp
        with bi(2) show False by simp
      qed
      have "fl_path (mem ?s') (firstFreeChunk ?s') []" using None by simp
      moreover have "distinct ([] @ ?p # live)" using fl(2) e fresh by simp
      moreover have "\<forall>a \<in> set ([] @ ?p # live). carved c ?s' a"
        using allc old new by auto
      moreover have "cursor_inv c ?s'" using gs a ci by (rule cursor_inv_allocate)
      moreover have "firstBlock ?s' =
          (if nextBlock ?s' = 0 then None else Some (nextBlock ?s' - 1))"
        by simp
      moreover have "\<forall>b<nextBlock ?s'. blocks ?s' b \<noteq> None"
        using bl by (auto simp: less_Suc_eq)
      moreover have "\<not> clobbered ?s'" using nc by simp
      ultimately have "live_inv c ?s' (?p # live)" by (rule live_invI)
      with a show ?thesis by blast
    next
      case False
      then have lt: "usedChunks s < growSize c" by simp
      from ci lt have "firstBlock s \<noteq> None" by (auto simp: cursor_inv_def)
      with fb have nz: "nextBlock s \<noteq> 0" by (auto split: if_splits)
      with fb obtain b where b: "firstBlock s = Some b" "Suc b = nextBlock s" by auto
      let ?p = "getChunk c b (usedChunks s)"
      let ?s' = "s\<lparr>usedChunks := Suc (usedChunks s)\<rparr>"
      have a: "allocate c s = (Inr ?p, ?s')" using None lt b(1) by (rule allocate_bump)
      have old: "carved c ?s' a" if "carved c s a" for a
      proof -
        from carvedD [OF that] obtain b' i where bi: "a = getChunk c b' i" "b' < nextBlock s"
          and i: "Suc b' = nextBlock s \<longrightarrow> i < usedChunks s"
            "Suc b' \<noteq> nextBlock s \<longrightarrow> i < growSize c"
          by blast
        from bi(2) i show ?thesis unfolding bi(1) by (intro carvedI) auto
      qed
      have new: "carved c ?s' ?p" using b(2) by (intro carvedI) auto
      have fresh: "?p \<notin> set live"
      proof
        assume "?p \<in> set live"
        with allc have "carved c s ?p" by simp
        from carved_bounded [OF this u] obtain b' i where bi: "?p = getChunk c b' i"
          "b' < nextBlock s" "i < growSize c" "Suc b' = nextBlock s \<longrightarrow> i < usedChunks s"
          by blast
        from bi(1) have "b = b' \<and> usedChunks s = i"
          using getChunk_inj [OF nw cs lt bi(3), of b b'] by simp
        with bi(4) b(2) show False by simp
      qed
      have "fl_path (mem ?s') (firstFreeChunk ?s') []" using None by simp
      moreover have "distinct ([] @ ?p # live)" using fl(2) e fresh by simp
      moreover have "\<forall>a \<in> set ([] @ ?p # live). carved c ?s' a"
        using allc old new by auto
      moreover have "cursor_inv c ?s'" using gs a ci by (rule cursor_inv_allocate)
      moreover have "firstBlock ?s' =
          (if nextBlock ?s' = 0 then None else Some (nextBlock ?s' - 1))"
        using fb by simp
      moreover have "\<forall>b<nextBlock ?s'. blocks ?s' b \<noteq> None" using bl by simp
      moreover have "\<not> clobbered ?s'" using nc by simp
      ultimately have "live_inv c ?s' (?p # live)" by (rule live_invI)
      with a show ?thesis by blast
    qed
  qed
qed

lemma track_inv:
  assumes v: "valid_config c" and nw: "no_wrap c"
  shows "live_inv c s live \<Longrightarrow>
    (\<forall>e. track c ops s live \<noteq> Inl (Fault e)) \<and>
    (\<forall>s' live'. track c ops s live = Inr (s', live') \<longrightarrow> live_inv c s' live')"
proof (induction ops arbitrary: s live)
  case Nil
  then show ?case by simp
next
  case (Cons x ops)
  show ?case
  proof (cases x)
    case Alloc
    from live_inv_allocate [OF v nw Cons.prems] obtain p s1 where
      a: "allocate c s = (Inr p, s1)" and i: "live_inv c s1 (p # live)" by blast
    from Cons.IH [OF i] Alloc a show ?thesis by simp
  next
    case (Dealloc p)
    show ?thesis
    proof (cases "p \<in> set live")
      case True
      with nw Cons.prems have "live_inv c (deallocate c p s) (remove1 p live)"
        by (rule live_inv_deallocate)
      from Cons.IH [OF this] Dealloc True show ?thesis by simp
    next
      case False
      with Dealloc show ?thesis by simp
    qed
  qed
qed

text \<open>
  In such a run no call writes outside a \<open>data\<close> array, and every live address has a
  whole slot inside the \<open>data\<close> array of a live block.
\<close>

lemma track_in_data:
  assumes "valid_config c" "no_wrap c"
    and "track c ops (MemoryPool c :: 'a pool) [] = Inr (s, live)"
  shows "\<not> clobbered s \<and> (\<forall>a \<in> set live. in_data c s a (chunkSize c))"
proof -
  from track_inv [OF assms(1,2) live_inv_init, of ops, where ?'a = 'a] assms(3)
  have inv: "live_inv c s live" by blast
  then obtain fl where fl: "\<forall>a \<in> set (fl @ live). carved c s a" and ci: "cursor_inv c s"
    and bl: "\<forall>b<nextBlock s. blocks s b \<noteq> None" and nc: "\<not> clobbered s"
    by (rule live_invE)
  from ci have u: "usedChunks s \<le> growSize c" by (simp add: cursor_inv_def)
  have "in_data c s a (chunkSize c)" if "a \<in> set live" for a
  proof -
    from fl that have "carved c s a" by simp
    with assms(2) show ?thesis using u bl by (rule carved_in_data)
  qed
  with nc show ?thesis by blast
qed

lemma track_append:
  "track c (xs @ ys) s live =
     (case track c xs s live of Inl e \<Rightarrow> Inl e | Inr (s', live') \<Rightarrow> track c ys s' live')"
proof (induction xs arbitrary: s live)
  case Nil
  then show ?case by simp
next
  case (Cons x xs)
  then show ?case by (cases x) (auto split: prod.splits sum.splits)
qed

lemma track_first_block:
  assumes "k < growSize c"
  shows "track c (replicate (Suc k) Alloc) (MemoryPool c :: 'a pool) [] =
      Inr (\<lparr>firstFreeChunk = None, firstBlock = Some 0, usedChunks = Suc k,
            blocks = [0 \<mapsto> None], nextBlock = Suc 0, mem = Map.empty, deleted = [],
            destroyed = [], clobbered = False\<rparr>,
           rev (map (getChunk c 0) [0..<Suc k]))"
  using assms
proof (induction k)
  case 0
  have "allocate c (MemoryPool c :: 'a pool) =
      (Inr (getChunk c 0 0),
       \<lparr>firstFreeChunk = None, firstBlock = Some 0, usedChunks = Suc 0,
        blocks = [0 \<mapsto> None], nextBlock = Suc 0, mem = Map.empty, deleted = [],
        destroyed = [], clobbered = False\<rparr>)"
    by (simp add: allocate_def new_Block_def MemoryPool_def)
  then show ?case by (simp add: fun_eq_iff)
next
  case (Suc k)
  let ?s = "\<lparr>firstFreeChunk = None, firstBlock = Some 0, usedChunks = Suc k,
           blocks = [0 \<mapsto> None], nextBlock = Suc 0, mem = Map.empty, deleted = [],
           destroyed = [], clobbered = False\<rparr> :: 'a pool"
  let ?s' = "\<lparr>firstFreeChunk = None, firstBlock = Some 0, usedChunks = Suc (Suc k),
           blocks = [0 \<mapsto> None], nextBlock = Suc 0, mem = Map.empty, deleted = [],
           destroyed = [], clobbered = False\<rparr> :: 'a pool"
  let ?l = "rev (map (getChunk c 0) [0..<Suc k])"
  from Suc have ih: "track c (replicate (Suc k) Alloc) (MemoryPool c :: 'a pool) [] =
      Inr (?s, ?l)"
    by (metis Suc_lessD)
  have step: "allocate c ?s = (Inr (getChunk c 0 (Suc k)), ?s')"
    using Suc.prems by (simp add: allocate_def)
  have "replicate (Suc (Suc k)) Alloc = replicate (Suc k) Alloc @ [Alloc]"
    by (metis replicate_append_same replicate_Suc)
  then have "track c (replicate (Suc (Suc k)) Alloc) (MemoryPool c :: 'a pool) [] =
      track c [Alloc] ?s ?l"
    by (simp only: track_append ih sum.case prod.case)
  also have "\<dots> = Inr (?s', getChunk c 0 (Suc k) # ?l)"
    by (simp only: track.simps step prod.case sum.case)
  also have "getChunk c 0 (Suc k) # ?l = rev (map (getChunk c 0) [0..<Suc (Suc k)])"
    by (simp only: upt_Suc_append [OF le0] map_append rev_append list.map rev.simps append.simps)
  finally show ?case .
qed

lemma repeated_not_distinct:
  assumes "f n = f 0" "0 < n"
  shows "\<not> distinct (rev (map f [0..<Suc n]))"
proof
  assume "distinct (rev (map f [0..<Suc n]))"
  then have inj: "inj_on f (set [0..<Suc n])" by (simp only: distinct_rev distinct_map)
  have mem: "n \<in> set [0..<Suc n]" "0 \<in> set [0..<Suc n]"
    by (simp_all only: set_upt atLeastLessThan_iff le0 lessI zero_less_Suc simp_thms)
  from inj assms(1) mem have "n = 0" by (rule inj_onD)
  with assms(2) show False by simp
qed

text \<open>
  C2. Claim as stated: in every disciplined sequence the live addresses are pairwise
  distinct. It fails when line 34 wraps: with \<open>sizeof(T) = 2^32\<close> and
  \<open>growSize = 2^32 + 1\<close> the array bound is \<open>2^32\<close>, a well-formed instantiation, and
  slot \<open>2^32\<close> has offset \<open>2^32 * 2^32 mod 2^64 = 0\<close>: the last of \<open>2^32 + 1\<close>
  allocations returns the address of the first, which is still live.
\<close>

theorem live_distinct_counterexample:
  "valid_config \<lparr>growSize = 2 ^ 32 + 1, sizeofT = 2 ^ 32, sizeofChunk = 8\<rparr> \<and>
   track \<lparr>growSize = 2 ^ 32 + 1, sizeofT = 2 ^ 32, sizeofChunk = 8\<rparr>
     (replicate (Suc (2 ^ 32)) Alloc)
     (MemoryPool \<lparr>growSize = 2 ^ 32 + 1, sizeofT = 2 ^ 32, sizeofChunk = 8\<rparr> :: nat pool) [] =
     Inr (\<lparr>firstFreeChunk = None, firstBlock = Some 0, usedChunks = Suc (2 ^ 32),
            blocks = [0 \<mapsto> None], nextBlock = Suc 0, mem = Map.empty, deleted = [],
            destroyed = [], clobbered = False\<rparr>,
          rev (map (getChunk \<lparr>growSize = 2 ^ 32 + 1, sizeofT = 2 ^ 32, sizeofChunk = 8\<rparr> 0)
            [0..<Suc (2 ^ 32)])) \<and>
   getChunk \<lparr>growSize = 2 ^ 32 + 1, sizeofT = 2 ^ 32, sizeofChunk = 8\<rparr> 0 (2 ^ 32) =
     getChunk \<lparr>growSize = 2 ^ 32 + 1, sizeofT = 2 ^ 32, sizeofChunk = 8\<rparr> 0 0 \<and>
   \<not> distinct
     (rev (map (getChunk \<lparr>growSize = 2 ^ 32 + 1, sizeofT = 2 ^ 32, sizeofChunk = 8\<rparr> 0)
        [0..<Suc (2 ^ 32)]))"
proof -
  let ?c = "\<lparr>growSize = 2 ^ 32 + 1, sizeofT = 2 ^ 32, sizeofChunk = 8\<rparr>"
  have v: "valid_config ?c"
    by (simp add: valid_config_def array_bound_def chunkSize_def size_range_def)
  have k: "2 ^ 32 < growSize ?c" by simp
  have e: "getChunk ?c 0 (2 ^ 32) = getChunk ?c 0 0"
    by (simp add: getChunk_def chunkSize_def size_range_def)
  have p: "(0::nat) < 2 ^ 32" by simp
  note t = track_first_block [OF k, where ?'a = nat]
  note d = repeated_not_distinct [of "getChunk ?c 0", OF e p]
  from v t e d show ?thesis by (intro conjI)
qed

text \<open>
  C2, amended. Take an instantiation whose array bound \<open>chunkSize * growSize\<close> is
  positive and does not wrap. Run any sequence of \<open>allocate\<close> and \<open>deallocate\<close> calls on
  a fresh pool, keeping the list of live addresses, and stop at a \<open>deallocate\<close> of an
  address that is not live. Then no \<open>allocate\<close> fails, and whenever the sequence runs
  to its end the live addresses are pairwise distinct. Every prefix of such a sequence
  is such a sequence, so this holds at every point of the run.
\<close>

theorem live_distinct:
  assumes "valid_config c" and "no_wrap c"
  shows "(\<forall>e. track c ops (MemoryPool c :: 'a pool) [] \<noteq> Inl (Fault e)) \<and>
    (\<forall>s live. track c ops (MemoryPool c :: 'a pool) [] = Inr (s, live) \<longrightarrow> distinct live)"
proof -
  have "live_inv c s live \<Longrightarrow> distinct live" for s :: "'a pool" and live
    by (erule live_invE) simp
  with track_inv [OF assms live_inv_init, of ops, where ?'a = 'a] show ?thesis by blast
qed

theorem live_distinct_witness:
  "valid_config \<lparr>growSize = 2, sizeofT = 4, sizeofChunk = 8\<rparr> \<and>
   no_wrap \<lparr>growSize = 2, sizeofT = 4, sizeofChunk = 8\<rparr> \<and>
   (\<exists>s. track \<lparr>growSize = 2, sizeofT = 4, sizeofChunk = 8\<rparr>
           [Alloc, Alloc, Dealloc (Addr 0 0), Alloc, Alloc]
           (MemoryPool \<lparr>growSize = 2, sizeofT = 4, sizeofChunk = 8\<rparr> :: nat pool) [] =
         Inr (s, [Addr 1 0, Addr 0 0, Addr 0 8])) \<and>
   distinct [Addr 1 0, Addr 0 0, Addr 0 8]"
proof -
  let ?c = "\<lparr>growSize = 2, sizeofT = 4, sizeofChunk = 8\<rparr>"
  have h: "valid_config ?c"
    by (simp add: valid_config_def array_bound_def chunkSize_def size_range_def)
  have n: "no_wrap ?c" by (simp add: no_wrap_def chunkSize_def size_range_def)
  have t: "\<exists>s. track ?c [Alloc, Alloc, Dealloc (Addr 0 0), Alloc, Alloc]
      (MemoryPool ?c :: nat pool) [] = Inr (s, [Addr 1 0, Addr 0 0, Addr 0 8])"
    by (simp add: allocate_def new_Block_def MemoryPool_def deallocate_def getChunk_def
        chunkSize_def size_range_def)
  with live_distinct [OF h n, of "[Alloc, Alloc, Dealloc (Addr 0 0), Alloc, Alloc]",
      where ?'a = nat]
  have "distinct [Addr 1 0, Addr 0 0, Addr 0 8]" by blast
  with h n t show ?thesis by blast
qed

end
